theory Spec2Isabelle
  imports Complex_Main "HOL-Library.Multiset"
begin

section \<open>View catalog (src/catalog/models.py, src/catalog/view_catalog.py)\<close>

text \<open>
  A row of the \<open>view_catalog\<close> table, read back as a \<open>ViewMetadata\<close> object.
  Timestamps are abstract instants; the JSON text of the list columns is kept as the
  list it encodes. The columns no modelled operation reads or writes one by one
  (steiner_subgraph, created_by_*, materialized_date, avg_query_time_ms, is_valid,
  embedding_id, approved_by, approval_date, review_notes) are left out.
\<close>

type_synonym timestamp = nat

record view_metadata =
  view_id :: "nat option"
  view_name :: string
  layer :: int
  domain :: string
  description :: "string option"
  base_tables :: "string list"
  depends_on_views :: "string list"
  used_by_views :: "string list"
  created_date :: "timestamp option"
  status :: string
  promoted_date :: "timestamp option"
  usage_count :: int
  last_used :: "timestamp option"
  freshness_type :: string
  last_validated :: "timestamp option"
  tags :: "string list"
  view_definition :: string

text \<open>The table: its rows in rowid order.\<close>

type_synonym catalog = "view_metadata list"

datatype error =
    DuplicateView string       \<comment> \<open>ValueError("View already exists: ...")\<close>
  | ValidationError string     \<comment> \<open>raised by a field validator of ViewMetadata\<close>
  | TablesNotInSchema "string list"  \<comment> \<open>ValueError("Tables not in schema: ...")\<close>
  | TableNotInGraph string     \<comment> \<open>ValueError("Table not in graph: ...")\<close>
  | NetworkXNoPath             \<comment> \<open>networkx.NetworkXNoPath\<close>
  | NetworkXNodeNotFound string  \<comment> \<open>networkx.NodeNotFound\<close>
  | NetworkXPointlessConcept   \<comment> \<open>networkx.NetworkXPointlessConcept\<close>

definition allowed_domains :: "string list" where
  "allowed_domains = [''fraud'', ''compliance'', ''customer'', ''merchant'', ''transaction'', ''risk'']"

definition allowed_statuses :: "string list" where
  "allowed_statuses = [''DRAFT'', ''PROMOTED'', ''MATERIALIZED'', ''STALE'', ''ARCHIVED'']"

definition allowed_types :: "string list" where
  "allowed_types = [''LIVE'', ''STATIC'', ''SCHEDULED'']"

definition validate_view_name :: "string \<Rightarrow> bool" where
  "validate_view_name v = (take 2 v = ''v_'')"

definition validate_layer :: "int \<Rightarrow> bool" where
  "validate_layer v = (v \<in> set [1, 2, 3])"

definition validate_domain :: "string \<Rightarrow> bool" where
  "validate_domain v = (v \<in> set allowed_domains)"

definition validate_status :: "string \<Rightarrow> bool" where
  "validate_status v = (v \<in> set allowed_statuses)"

definition validate_freshness_type :: "string \<Rightarrow> bool" where
  "validate_freshness_type v = (v \<in> set allowed_types)"

text \<open>\<open>ViewMetadata.from_db_row\<close>: building the object runs every field validator.\<close>

definition from_db_row :: "view_metadata \<Rightarrow> error + view_metadata" where
  "from_db_row r =
     (if \<not> validate_view_name (view_name r) then Inl (ValidationError ''view_name'')
      else if \<not> validate_layer (layer r) then Inl (ValidationError ''layer'')
      else if \<not> validate_domain (domain r) then Inl (ValidationError ''domain'')
      else if \<not> validate_status (status r) then Inl (ValidationError ''status'')
      else if \<not> validate_freshness_type (freshness_type r) then Inl (ValidationError ''freshness_type'')
      else Inr r)"

text \<open>The list comprehension \<open>[ViewMetadata.from_db_row(dict(row)) for row in results]\<close>:
  the first row that fails validation raises.\<close>

fun from_db_rows :: "view_metadata list \<Rightarrow> error + view_metadata list" where
  "from_db_rows [] = Inr []"
| "from_db_rows (r # rs) =
     (case from_db_row r of
        Inl e \<Rightarrow> Inl e
      | Inr v \<Rightarrow> (case from_db_rows rs of Inl e \<Rightarrow> Inl e | Inr vs \<Rightarrow> Inr (v # vs)))"

text \<open>\<open>DatabaseConnection.execute_update\<close> for \<open>UPDATE view_catalog SET ... WHERE ...\<close>:
  the number of rows the condition selects, and the table with those rows rewritten.\<close>

definition execute_update ::
  "(view_metadata \<Rightarrow> bool) \<Rightarrow> (view_metadata \<Rightarrow> view_metadata) \<Rightarrow> catalog \<Rightarrow> nat \<times> catalog" where
  "execute_update cond upd c = (length (filter cond c), map (\<lambda>r. if cond r then upd r else r) c)"

definition find_by_name :: "catalog \<Rightarrow> string \<Rightarrow> error + view_metadata option" where
  "find_by_name c name =
     (case filter (\<lambda>r. view_name r = name) c of
        [] \<Rightarrow> Inr None
      | r # _ \<Rightarrow> (case from_db_row r of Inl e \<Rightarrow> Inl e | Inr v \<Rightarrow> Inr (Some v)))"

definition find_by_id :: "catalog \<Rightarrow> nat \<Rightarrow> error + view_metadata option" where
  "find_by_id c i =
     (case filter (\<lambda>r. view_id r = Some i) c of
        [] \<Rightarrow> Inr None
      | r # _ \<Rightarrow> (case from_db_row r of Inl e \<Rightarrow> Inl e | Inr v \<Rightarrow> Inr (Some v)))"

text \<open>\<open>cursor.lastrowid\<close> of the insert: one more than the largest rowid in the table.\<close>

definition lastrowid :: "catalog \<Rightarrow> nat" where
  "lastrowid c = Suc (fold max (map (\<lambda>r. case view_id r of None \<Rightarrow> 0 | Some i \<Rightarrow> i) c) 0)"

text \<open>\<open>register_view\<close>. The two arguments \<open>now1\<close>, \<open>now2\<close> are the values of the two
  \<open>datetime.now()\<close> calls. The result pairs what the call returns or raises with the
  table afterwards.\<close>

definition register_view ::
  "timestamp \<Rightarrow> timestamp \<Rightarrow> view_metadata \<Rightarrow> catalog \<Rightarrow> (error + view_metadata option) \<times> catalog" where
  "register_view now1 now2 view c =
     (case find_by_name c (view_name view) of
        Inl e \<Rightarrow> (Inl e, c)
      | Inr (Some existing) \<Rightarrow> (Inl (DuplicateView (view_name view)), c)
      | Inr None \<Rightarrow>
          (let view1 = (if created_date view = None then view\<lparr>created_date := Some now1\<rparr> else view);
               view2 = (if last_validated view1 = None then view1\<lparr>last_validated := Some now2\<rparr> else view1);
               new_id = lastrowid c;
               c' = c @ [view2\<lparr>view_id := Some new_id\<rparr>]
           in (find_by_id c' new_id, c')))"

text \<open>\<open>find_by_domain\<close>: \<open>ORDER BY usage_count DESC\<close> is a stable sort of the selected
  rows; \<open>if layer:\<close> takes the branch without a layer filter for \<open>None\<close> and for 0.\<close>

definition find_by_domain :: "catalog \<Rightarrow> string \<Rightarrow> int option \<Rightarrow> error + view_metadata list" where
  "find_by_domain c d lay =
     (if lay \<noteq> None \<and> lay \<noteq> Some 0
      then from_db_rows (sort_key (\<lambda>r. - usage_count r)
             (filter (\<lambda>r. domain r = d \<and> Some (layer r) = lay) c))
      else from_db_rows (sort_key (\<lambda>r. - usage_count r) (filter (\<lambda>r. domain r = d) c)))"

text \<open>\<open>get_all_views\<close>: \<open>ORDER BY usage_count DESC, created_date DESC\<close>, a NULL date
  last. Sorting stably by the second key and then by the first gives that order.\<close>

definition created_desc_key :: "view_metadata \<Rightarrow> int" where
  "created_desc_key r = (case created_date r of None \<Rightarrow> 1 | Some t \<Rightarrow> - int t)"

definition get_all_views :: "catalog \<Rightarrow> int option \<Rightarrow> string option \<Rightarrow> error + view_metadata list" where
  "get_all_views c lay st =
     (let rows1 = (if lay \<noteq> None \<and> lay \<noteq> Some 0 then filter (\<lambda>r. Some (layer r) = lay) c else c);
          rows2 = (if st \<noteq> None \<and> st \<noteq> Some [] then filter (\<lambda>r. Some (status r) = st) rows1 else rows1)
      in from_db_rows (sort_key (\<lambda>r. - usage_count r) (sort_key created_desc_key rows2)))"

text \<open>\<open>promote_view\<close>: \<open>UPDATE ... SET status = 'PROMOTED', promoted_date = ?
  WHERE view_name = ? AND status = 'DRAFT'\<close>.\<close>

definition promote_view :: "timestamp \<Rightarrow> string \<Rightarrow> catalog \<Rightarrow> bool \<times> catalog" where
  "promote_view now name c =
     (let (rows_affected, c') =
            execute_update (\<lambda>r. view_name r = name \<and> status r = ''DRAFT'')
              (\<lambda>r. r\<lparr>status := ''PROMOTED'', promoted_date := Some now\<rparr>) c
      in (0 < rows_affected, c'))"

text \<open>\<open>increment_usage\<close>: \<open>now\<close> is the time of the update, \<open>pnow\<close> the time read by the
  promotion. An exception after the update (a row that fails validation when it is read
  back) is caught: the call returns False and the update stays.\<close>

definition increment_usage :: "timestamp \<Rightarrow> timestamp \<Rightarrow> string \<Rightarrow> catalog \<Rightarrow> bool \<times> catalog" where
  "increment_usage now pnow name c =
     (let (rows_affected, c1) =
            execute_update (\<lambda>r. view_name r = name)
              (\<lambda>r. r\<lparr>usage_count := usage_count r + 1, last_used := Some now\<rparr>) c
      in if 0 < rows_affected then
           (case find_by_name c1 name of
              Inl e \<Rightarrow> (False, c1)
            | Inr None \<Rightarrow> (True, c1)
            | Inr (Some view) \<Rightarrow>
                if usage_count view \<ge> 3 \<and> status view = ''DRAFT''
                then (True, snd (promote_view pnow name c1))
                else (True, c1))
         else (False, c1))"

text \<open>The \<open>updates\<close> dictionary of \<open>update_view\<close>: one entry per column
  (a dictionary holds each key once).\<close>

datatype field_update =
    Set_view_name string
  | Set_layer int
  | Set_domain string
  | Set_description "string option"
  | Set_base_tables "string list"
  | Set_depends_on_views "string list"
  | Set_used_by_views "string list"
  | Set_created_date "timestamp option"
  | Set_status string
  | Set_promoted_date "timestamp option"
  | Set_usage_count int
  | Set_last_used "timestamp option"
  | Set_freshness_type string
  | Set_last_validated "timestamp option"
  | Set_tags "string list"
  | Set_view_definition string

fun apply_update :: "field_update \<Rightarrow> view_metadata \<Rightarrow> view_metadata" where
  "apply_update (Set_view_name v) r = r\<lparr>view_name := v\<rparr>"
| "apply_update (Set_layer v) r = r\<lparr>layer := v\<rparr>"
| "apply_update (Set_domain v) r = r\<lparr>domain := v\<rparr>"
| "apply_update (Set_description v) r = r\<lparr>description := v\<rparr>"
| "apply_update (Set_base_tables v) r = r\<lparr>base_tables := v\<rparr>"
| "apply_update (Set_depends_on_views v) r = r\<lparr>depends_on_views := v\<rparr>"
| "apply_update (Set_used_by_views v) r = r\<lparr>used_by_views := v\<rparr>"
| "apply_update (Set_created_date v) r = r\<lparr>created_date := v\<rparr>"
| "apply_update (Set_status v) r = r\<lparr>status := v\<rparr>"
| "apply_update (Set_promoted_date v) r = r\<lparr>promoted_date := v\<rparr>"
| "apply_update (Set_usage_count v) r = r\<lparr>usage_count := v\<rparr>"
| "apply_update (Set_last_used v) r = r\<lparr>last_used := v\<rparr>"
| "apply_update (Set_freshness_type v) r = r\<lparr>freshness_type := v\<rparr>"
| "apply_update (Set_last_validated v) r = r\<lparr>last_validated := v\<rparr>"
| "apply_update (Set_tags v) r = r\<lparr>tags := v\<rparr>"
| "apply_update (Set_view_definition v) r = r\<lparr>view_definition := v\<rparr>"

text \<open>\<open>update_view\<close>: \<open>UPDATE view_catalog SET k1 = ?, ... WHERE view_name = ?\<close>.\<close>

definition update_view :: "string \<Rightarrow> field_update list \<Rightarrow> catalog \<Rightarrow> bool \<times> catalog" where
  "update_view name updates c =
     (if updates = [] then (False, c)
      else (let (rows_affected, c') =
                  execute_update (\<lambda>r. view_name r = name) (\<lambda>r. fold apply_update updates r) c
            in (0 < rows_affected, c')))"

text \<open>\<open>delete_view\<close>: the soft delete.\<close>

definition delete_view :: "string \<Rightarrow> catalog \<Rightarrow> bool \<times> catalog" where
  "delete_view name c = update_view name [Set_status ''ARCHIVED''] c"

subsection \<open>Catalog states and histories\<close>

text \<open>Every stored row passes the validators when it is read back.\<close>

definition valid_catalog :: "catalog \<Rightarrow> bool" where
  "valid_catalog c = list_all (\<lambda>r. from_db_row r = Inr r) c"


text \<open>What one \<open>increment_usage\<close> call does to the row it names, and a run of them.\<close>

definition usage_step :: "timestamp \<Rightarrow> timestamp \<Rightarrow> view_metadata \<Rightarrow> view_metadata" where
  "usage_step now pnow r =
     (let r1 = r\<lparr>usage_count := usage_count r + 1, last_used := Some now\<rparr>
      in if usage_count r1 \<ge> 3 \<and> status r1 = ''DRAFT''
         then r1\<lparr>status := ''PROMOTED'', promoted_date := Some pnow\<rparr> else r1)"

definition usage_steps :: "(timestamp \<times> timestamp) list \<Rightarrow> view_metadata \<Rightarrow> view_metadata" where
  "usage_steps ts r = fold (\<lambda>(now, pnow) x. usage_step now pnow x) ts r"

text \<open>The operations that write the catalog, and a history of them.\<close>

datatype catalog_op =
    Register timestamp timestamp view_metadata
  | Increment_usage timestamp timestamp string
  | Promote timestamp string
  | Update string "field_update list"
  | Archive string

fun run_op :: "catalog_op \<Rightarrow> catalog \<Rightarrow> catalog" where
  "run_op (Register now1 now2 view) c = snd (register_view now1 now2 view c)"
| "run_op (Increment_usage now pnow name) c = snd (increment_usage now pnow name c)"
| "run_op (Promote now name) c = snd (promote_view now name c)"
| "run_op (Update name updates) c = snd (update_view name updates c)"
| "run_op (Archive name) c = snd (delete_view name c)"

definition run_ops :: "catalog_op list \<Rightarrow> catalog \<Rightarrow> catalog" where
  "run_ops ops c = fold run_op ops c"

text \<open>The status changes of the lifecycle: none, DRAFT to PROMOTED, any to ARCHIVED.\<close>

definition allowed_transition :: "string \<Rightarrow> string \<Rightarrow> bool" where
  "allowed_transition s s' = (s' = s \<or> (s = ''DRAFT'' \<and> s' = ''PROMOTED'') \<or> s' = ''ARCHIVED'')"

text \<open>An operation that writes the status column with nothing but ARCHIVED.\<close>

fun writes_status :: "field_update \<Rightarrow> string option" where
  "writes_status (Set_status v) = Some v"
| "writes_status _ = None"

fun status_safe :: "catalog_op \<Rightarrow> bool" where
  "status_safe (Update name updates) = list_all (\<lambda>u. writes_status u \<in> {None, Some ''ARCHIVED''}) updates"
| "status_safe _ = True"

text \<open>Rows are never removed or moved, and each keeps to the lifecycle.\<close>

definition extends :: "catalog \<Rightarrow> catalog \<Rightarrow> bool" where
  "extends c c' = (length c \<le> length c' \<and> (\<forall>i<length c. allowed_transition (status (c ! i)) (status (c' ! i))))"

section \<open>Schema graph (src/graph/schema_graph.py)\<close>

text \<open>\<open>SchemaGraph.graph\<close>, a \<open>networkx.DiGraph\<close> as \<open>build_from_database\<close> leaves it:
  the tables in insertion order, every node of type 'table', and the foreign-key edges
  with their weights. The undirected graphs of the solver keep the 'type' attribute of
  each node (\<open>None\<close>: the node has none) and one weighted edge per pair of nodes.\<close>

record digraph =
  dnodes :: "string list"
  dedges :: "(string \<times> string \<times> real) list"

record ugraph =
  unodes :: "(string \<times> string option) list"
  uedges :: "(string \<times> string \<times> real) list"

subsection \<open>The networkx operations the code calls\<close>

definition node_names :: "ugraph \<Rightarrow> string list" where
  "node_names g = map fst (unodes g)"

definition has_node :: "ugraph \<Rightarrow> string \<Rightarrow> bool" where
  "has_node g n = (n \<in> set (node_names g))"

definition joins :: "string \<Rightarrow> string \<Rightarrow> string \<times> string \<times> real \<Rightarrow> bool" where
  "joins u v e = ((fst e = u \<and> fst (snd e) = v) \<or> (fst e = v \<and> fst (snd e) = u))"

definition has_uedge :: "ugraph \<Rightarrow> string \<Rightarrow> string \<Rightarrow> bool" where
  "has_uedge g u v = list_ex (joins u v) (uedges g)"

text \<open>What networkx keeps true of a graph: both ends of an edge are nodes.\<close>

definition wf_digraph :: "digraph \<Rightarrow> bool" where
  "wf_digraph sg = list_all (\<lambda>e. fst e \<in> set (dnodes sg) \<and> fst (snd e) \<in> set (dnodes sg)) (dedges sg)"

text \<open>\<open>Graph.add_node\<close> with attributes: a new node is appended, a node already there
  takes the new attributes. \<open>Graph.add_edge\<close> creates missing ends without attributes
  and overwrites the weight of an edge already there.\<close>

definition add_node :: "ugraph \<Rightarrow> string \<Rightarrow> string option \<Rightarrow> ugraph" where
  "add_node g n ty =
     (if has_node g n
      then g\<lparr>unodes := map (\<lambda>p. if fst p = n then (n, ty) else p) (unodes g)\<rparr>
      else g\<lparr>unodes := unodes g @ [(n, ty)]\<rparr>)"

definition ensure_node :: "ugraph \<Rightarrow> string \<Rightarrow> ugraph" where
  "ensure_node g n = (if has_node g n then g else g\<lparr>unodes := unodes g @ [(n, None)]\<rparr>)"

definition add_edge :: "ugraph \<Rightarrow> string \<Rightarrow> string \<Rightarrow> real \<Rightarrow> ugraph" where
  "add_edge g u v w =
     (let g1 = ensure_node (ensure_node g u) v
      in if has_uedge g1 u v
         then g1\<lparr>uedges := map (\<lambda>e. if joins u v e then (fst e, fst (snd e), w) else e) (uedges g1)\<rparr>
         else g1\<lparr>uedges := uedges g1 @ [(u, v, w)]\<rparr>)"

text \<open>\<open>DiGraph.to_undirected()\<close>: the nodes with their attributes, then the edges in
  the order of their source node; of two opposite edges the later one gives the weight.\<close>

definition to_undirected :: "digraph \<Rightarrow> ugraph" where
  "to_undirected sg =
     fold (\<lambda>e g. add_edge g (fst e) (fst (snd e)) (snd (snd e)))
       (concat (map (\<lambda>u. filter (\<lambda>e. fst e = u) (dedges sg)) (dnodes sg)))
       \<lparr>unodes = map (\<lambda>n. (n, Some ''table'')) (dnodes sg), uedges = []\<rparr>"

definition neighbors :: "ugraph \<Rightarrow> string \<Rightarrow> string list" where
  "neighbors g u =
     map (\<lambda>e. if fst e = u then fst (snd e) else fst e)
       (filter (\<lambda>e. fst e = u \<or> fst (snd e) = u) (uedges g))"

text \<open>\<open>nx.connected_components\<close>: for each node not yet seen, in node order, the nodes
  reachable from it. Reachability is computed by closing under adjacency once per node
  of the graph.\<close>

definition grow :: "ugraph \<Rightarrow> string list \<Rightarrow> string list" where
  "grow g vs = filter (\<lambda>n. n \<in> set vs \<or> list_ex (\<lambda>m. has_uedge g m n) vs) (node_names g)"

definition component :: "ugraph \<Rightarrow> string \<Rightarrow> string list" where
  "component g v = (grow g ^^ length (unodes g)) [v]"

fun components_from :: "ugraph \<Rightarrow> string list \<Rightarrow> string list \<Rightarrow> string list list" where
  "components_from g seen [] = []"
| "components_from g seen (v # vs) =
     (if v \<in> set seen then components_from g seen vs
      else component g v # components_from g (seen @ component g v) vs)"

definition connected_components :: "ugraph \<Rightarrow> string list list" where
  "connected_components g = components_from g [] (node_names g)"

text \<open>\<open>nx.is_connected\<close>: the component of the first node is the whole graph; the null
  graph raises.\<close>

definition is_connected :: "ugraph \<Rightarrow> error + bool" where
  "is_connected g =
     (case node_names g of
        [] \<Rightarrow> Inl NetworkXPointlessConcept
      | v # _ \<Rightarrow> Inr (length (component g v) = length (unodes g)))"

text \<open>\<open>max(components, key=len)\<close>: the first component of the greatest length.\<close>

fun max_by_len :: "'a list list \<Rightarrow> 'a list" where
  "max_by_len [] = []"
| "max_by_len (c # cs) = fold (\<lambda>x best. if length best < length x then x else best) cs c"

text \<open>\<open>graph.subgraph(nodes).copy()\<close>: the induced subgraph.\<close>

definition subgraph_of :: "ugraph \<Rightarrow> string list \<Rightarrow> ugraph" where
  "subgraph_of g ns =
     \<lparr>unodes = filter (\<lambda>p. fst p \<in> set ns) (unodes g),
      uedges = filter (\<lambda>e. fst e \<in> set ns \<and> fst (snd e) \<in> set ns) (uedges g)\<rparr>"

subsection \<open>Operations of SchemaGraph\<close>

text \<open>\<open>nx.shortest_path(G, source, target)\<close>: raises NodeNotFound when an end is not a
  node of G, NetworkXNoPath when no path joins them. \<open>search\<close> stands for the
  library's search on a graph that has both ends.\<close>

definition nx_shortest_path ::
  "(ugraph \<Rightarrow> string \<Rightarrow> string \<Rightarrow> string list option) \<Rightarrow> ugraph \<Rightarrow> string \<Rightarrow> string
     \<Rightarrow> error + string list" where
  "nx_shortest_path search g source target =
     (if \<not> has_node g source then Inl (NetworkXNodeNotFound source)
      else if \<not> has_node g target then Inl (NetworkXNodeNotFound target)
      else (case search g source target of None \<Rightarrow> Inl NetworkXNoPath | Some path \<Rightarrow> Inr path))"

definition get_shortest_path ::
  "(ugraph \<Rightarrow> string \<Rightarrow> string \<Rightarrow> string list option) \<Rightarrow> digraph \<Rightarrow> string \<Rightarrow> string
     \<Rightarrow> error + string list option" where
  "get_shortest_path search sg source target =
     (case nx_shortest_path search (to_undirected sg) source target of
        Inr path \<Rightarrow> Inr (Some path)
      | Inl NetworkXNoPath \<Rightarrow> Inr None
      | Inl e \<Rightarrow> Inl e)"

text \<open>\<open>get_table_info\<close>, reduced to its check of the name.\<close>

definition get_table_info :: "digraph \<Rightarrow> string \<Rightarrow> error + string" where
  "get_table_info sg table_name =
     (if table_name \<notin> set (dnodes sg) then Inl (TableNotInGraph table_name) else Inr table_name)"

text \<open>The breadth-first loop of \<open>get_connected_tables\<close>: \<open>visited\<close> in the order of
  the visits, the queue of (table, depth) pairs.\<close>

definition endpoints :: "ugraph \<Rightarrow> string set" where
  "endpoints g = fst ` set (uedges g) \<union> (\<lambda>e. fst (snd e)) ` set (uedges g)"

function bfs :: "ugraph \<Rightarrow> int \<Rightarrow> string list \<Rightarrow> (string \<times> int) list \<Rightarrow> string list" where
  "bfs g max_depth visited [] = visited"
| "bfs g max_depth visited ((current, depth) # queue) =
     (if current \<in> set visited \<or> depth > max_depth then bfs g max_depth visited queue
      else bfs g max_depth (visited @ [current])
             (queue @ map (\<lambda>n. (n, depth + 1))
                        (filter (\<lambda>n. n \<notin> set (visited @ [current])) (neighbors g current))))"
  by pat_completeness auto

termination
proof (relation "inv_image (less_than <*lex*> less_than)
    (\<lambda>(g, max_depth, visited, queue).
       (card ((endpoints g \<union> fst ` set queue) - set visited), length queue))", goal_cases)
  case 1
  show ?case by (intro wf_inv_image wf_lex_prod wf_less_than)
next
  case (2 g max_depth visited current depth queue)
  have fin: "finite ((endpoints g \<union> fst ` set ((current, depth) # queue)) - set visited)"
    by (simp add: endpoints_def)
  have "(endpoints g \<union> fst ` set queue) - set visited
      \<subseteq> (endpoints g \<union> fst ` set ((current, depth) # queue)) - set visited"
    by auto
  from card_mono [OF fin this] show ?case by auto
next
  case (3 g max_depth visited current depth queue)
  let ?new = "map (\<lambda>n. (n, depth + 1))
                (filter (\<lambda>n. n \<notin> set (visited @ [current])) (neighbors g current))"
  have fin: "finite ((endpoints g \<union> fst ` set ((current, depth) # queue)) - set visited)"
    by (simp add: endpoints_def)
  have "set (neighbors g current) \<subseteq> endpoints g"
    by (auto simp: neighbors_def endpoints_def)
  then have new: "fst ` set ?new \<subseteq> endpoints g"
    by auto
  have sub: "(endpoints g \<union> fst ` set (queue @ ?new)) - set (visited @ [current])
      \<subseteq> ((endpoints g \<union> fst ` set ((current, depth) # queue)) - set visited) - {current}"
    using new by auto
  have cur: "current \<in> (endpoints g \<union> fst ` set ((current, depth) # queue)) - set visited"
    using 3 by simp
  have "(endpoints g \<union> fst ` set (queue @ ?new)) - set (visited @ [current])
      \<subset> (endpoints g \<union> fst ` set ((current, depth) # queue)) - set visited"
    using sub cur by blast
  from psubset_card_mono [OF fin this] show ?case by simp
qed

text \<open>\<open>get_connected_tables\<close>; \<open>list(connected)\<close> is given in the order of the visits.\<close>

definition get_connected_tables :: "digraph \<Rightarrow> string \<Rightarrow> int \<Rightarrow> string list" where
  "get_connected_tables sg table_name max_depth =
     (if table_name \<notin> set (dnodes sg) then []
      else filter (\<lambda>n. n \<noteq> table_name)
             (bfs (to_undirected sg) max_depth [] [(table_name, 0)]))"

text \<open>The float \<open>calculate_join_cost\<close> returns: a number or \<open>float('inf')\<close>.\<close>

datatype join_cost = Finite real | Infinite

definition has_edge :: "digraph \<Rightarrow> string \<Rightarrow> string \<Rightarrow> bool" where
  "has_edge sg u v = list_ex (\<lambda>e. fst e = u \<and> fst (snd e) = v) (dedges sg)"

text \<open>\<open>self.graph[u][v].get('weight', 1.0)\<close>: the weight of the edge from u to v, 1.0
  where there is none to read.\<close>

definition edge_weight :: "digraph \<Rightarrow> string \<Rightarrow> string \<Rightarrow> real" where
  "edge_weight sg u v =
     (case filter (\<lambda>e. fst e = u \<and> fst (snd e) = v) (dedges sg) of
        [] \<Rightarrow> 1
      | e # _ \<Rightarrow> snd (snd e))"

fun path_cost :: "digraph \<Rightarrow> string list \<Rightarrow> real" where
  "path_cost sg (from_node # to_node # rest) =
     (if has_edge sg from_node to_node then edge_weight sg from_node to_node
      else if has_edge sg to_node from_node then edge_weight sg to_node from_node
      else 1) + path_cost sg (to_node # rest)"
| "path_cost sg _ = 0"

definition calculate_join_cost ::
  "(ugraph \<Rightarrow> string \<Rightarrow> string \<Rightarrow> string list option) \<Rightarrow> digraph \<Rightarrow> string \<Rightarrow> string
     \<Rightarrow> error + join_cost" where
  "calculate_join_cost search sg table1 table2 =
     (if table1 \<notin> set (dnodes sg) \<or> table2 \<notin> set (dnodes sg) then Inr Infinite
      else if has_edge sg table1 table2 then Inr (Finite (edge_weight sg table1 table2))
      else if has_edge sg table2 table1 then Inr (Finite (edge_weight sg table2 table1))
      else (case nx_shortest_path search (to_undirected sg) table1 table2 of
              Inr path \<Rightarrow> Inr (Finite (path_cost sg path))
            | Inl NetworkXNoPath \<Rightarrow> Inr Infinite
            | Inl e \<Rightarrow> Inl e))"

section \<open>Steiner tree solver (src/graph/steiner_tree.py)\<close>

text \<open>Python's \<open>round(x, d)\<close>: to the nearest multiple of \<open>10^-d\<close>, a tie to the even one.\<close>

definition round_half_even :: "real \<Rightarrow> int" where
  "round_half_even y =
     (let f = \<lfloor>y\<rfloor>; d = y - of_int f
      in if d < 1/2 then f else if 1/2 < d then f + 1 else if even f then f else f + 1)"

definition py_round :: "real \<Rightarrow> nat \<Rightarrow> real" where
  "py_round x d = of_int (round_half_even (x * 10 ^ d)) / 10 ^ d"

text \<open>The result dictionary of \<open>solve\<close>, without its \<open>path_description\<close> text.\<close>

record solution =
  subgraph :: ugraph
  terminal_tables :: "string list"
  tables_used :: "string list"
  views_used :: "string list"
  total_nodes :: nat
  total_edges :: nat
  total_cost :: real
  used_views :: bool

definition empty_result :: solution where
  "empty_result =
     \<lparr>subgraph = \<lparr>unodes = [], uedges = []\<rparr>, terminal_tables = [], tables_used = [],
      views_used = [], total_nodes = 0, total_edges = 0, total_cost = 0, used_views = False\<rparr>"

definition single_table_result :: "string \<Rightarrow> solution" where
  "single_table_result table =
     \<lparr>subgraph = \<lparr>unodes = [(table, None)], uedges = []\<rparr>, terminal_tables = [table],
      tables_used = [table], views_used = [], total_nodes = 1, total_edges = 0,
      total_cost = 0, used_views = False\<rparr>"

definition analyze_solution :: "ugraph \<Rightarrow> string list \<Rightarrow> bool \<Rightarrow> solution" where
  "analyze_solution steiner_tree terminals used =
     \<lparr>subgraph = steiner_tree,
      terminal_tables = terminals,
      tables_used = map fst (filter (\<lambda>p. snd p \<noteq> Some ''view'') (unodes steiner_tree)),
      views_used = map fst (filter (\<lambda>p. snd p = Some ''view'') (unodes steiner_tree)),
      total_nodes = length (unodes steiner_tree),
      total_edges = length (uedges steiner_tree),
      total_cost = py_round (sum_list (map (\<lambda>e. snd (snd e)) (uedges steiner_tree))) 4,
      used_views = used\<rparr>"

text \<open>\<open>_build_unified_graph\<close>: the promoted views, then the materialized ones, each
  added as a node of type 'view' and joined by an edge of weight 0 to each of its base
  tables that is a node of the graph at that moment. \<open>link_tables\<close> is the inner loop
  over \<open>view.base_tables\<close>.\<close>

definition link_tables :: "string \<Rightarrow> string list \<Rightarrow> ugraph \<Rightarrow> ugraph" where
  "link_tables name ts g =
     fold (\<lambda>table g'. if has_node g' table then add_edge g' name table 0 else g') ts g"

definition add_view :: "view_metadata \<Rightarrow> ugraph \<Rightarrow> ugraph" where
  "add_view view g =
     link_tables (view_name view) (base_tables view) (add_node g (view_name view) (Some ''view''))"

definition build_unified_graph :: "digraph \<Rightarrow> catalog \<Rightarrow> error + ugraph" where
  "build_unified_graph sg c =
     (case get_all_views c None (Some ''PROMOTED'') of
        Inl e \<Rightarrow> Inl e
      | Inr promoted \<Rightarrow>
          (case get_all_views c None (Some ''MATERIALIZED'') of
             Inl e \<Rightarrow> Inl e
           | Inr materialized \<Rightarrow>
               Inr (fold add_view (promoted @ materialized) (to_undirected sg))))"


definition keeps_edge :: "ugraph \<Rightarrow> string \<times> string \<times> real \<Rightarrow> bool" where
  "keeps_edge g e =
     list_ex (\<lambda>e'. fst e' = fst e \<and> fst (snd e') = fst (snd e)
                \<and> (snd (snd e') = snd (snd e) \<or> snd (snd e') = 0)) (uedges g)"



text \<open>What \<open>solve\<close> does with a working graph of two or more terminals, from
  "Handle disconnected graphs" on. \<open>steiner\<close> stands for
  \<open>nx.algorithms.approximation.steiner_tree(graph, terminals, weight='weight')\<close>.\<close>

definition solve_on ::
  "(ugraph \<Rightarrow> string list \<Rightarrow> ugraph) \<Rightarrow> ugraph \<Rightarrow> string list \<Rightarrow> bool \<Rightarrow> error + solution" where
  "solve_on steiner graph terminals use_views =
     (case is_connected graph of
        Inl e \<Rightarrow> Inl e
      | Inr True \<Rightarrow> Inr (analyze_solution (steiner graph terminals) terminals use_views)
      | Inr False \<Rightarrow>
          (let largest_component = max_by_len (connected_components graph);
               graph' = subgraph_of graph largest_component;
               valid_terminals = filter (has_node graph') terminals
           in if length valid_terminals = 0 then Inr empty_result
              else if length valid_terminals = 1 then Inr (single_table_result (hd valid_terminals))
              else Inr (analyze_solution (steiner graph' valid_terminals) valid_terminals use_views)))"

text \<open>The graph \<open>solve\<close> works on ("Build unified graph (with or without views)"): the
  unified graph under \<open>use_views and self.catalog\<close>, the undirected projection
  otherwise. \<open>cat\<close> is the solver's catalog (\<open>None\<close>: it has none), given by the rows
  of its table.\<close>

definition working_graph :: "digraph \<Rightarrow> catalog option \<Rightarrow> bool \<Rightarrow> error + ugraph" where
  "working_graph sg cat use_views =
     (case cat of
        Some c \<Rightarrow> if use_views then build_unified_graph sg c else Inr (to_undirected sg)
      | None \<Rightarrow> Inr (to_undirected sg))"

text \<open>\<open>solve\<close>.\<close>

definition solve ::
  "(ugraph \<Rightarrow> string list \<Rightarrow> ugraph) \<Rightarrow> digraph \<Rightarrow> catalog option \<Rightarrow> string list \<Rightarrow> bool
     \<Rightarrow> error + solution" where
  "solve steiner sg cat terminals use_views =
     (let missing = filter (\<lambda>t. t \<notin> set (dnodes sg)) terminals
      in if missing \<noteq> [] then Inl (TablesNotInSchema missing)
         else if length terminals = 0 then Inr empty_result
         else if length terminals = 1 then Inr (single_table_result (hd terminals))
         else (case working_graph sg cat use_views of
                 Inl e \<Rightarrow> Inl e
               | Inr graph \<Rightarrow> solve_on steiner graph terminals use_views))"

text \<open>What a Steiner tree of \<open>g\<close> for the terminals is at the least: a graph made of
  edges of \<open>g\<close> in which every two terminals are joined by a path.\<close>

definition linked :: "ugraph \<Rightarrow> string \<Rightarrow> string \<Rightarrow> bool" where
  "linked h a b = ((a, b) \<in> {(u, v). has_uedge h u v}\<^sup>*)"

definition spans :: "ugraph \<Rightarrow> ugraph \<Rightarrow> string list \<Rightarrow> bool" where
  "spans h g terminals =
     (set (uedges h) \<subseteq> set (uedges g) \<and> (\<forall>a\<in>set terminals. \<forall>b\<in>set terminals. linked h a b))"

text \<open>The dictionary of \<open>compare_solutions\<close>, flattened.\<close>

record comparison =
  without_tables :: "string list"
  without_cost :: real
  without_edges :: nat
  with_tables :: "string list"
  with_views :: "string list"
  with_cost :: real
  with_edges :: nat
  cost_reduction :: real
  cost_reduction_pct :: real
  tables_avoided :: int

definition compare_solutions ::
  "(ugraph \<Rightarrow> string list \<Rightarrow> ugraph) \<Rightarrow> digraph \<Rightarrow> catalog option \<Rightarrow> string list
     \<Rightarrow> error + comparison" where
  "compare_solutions steiner sg cat terminals =
     (case solve steiner sg cat terminals False of
        Inl e \<Rightarrow> Inl e
      | Inr solution_without \<Rightarrow>
          (case (if cat \<noteq> None then solve steiner sg cat terminals True else Inr solution_without) of
             Inl e \<Rightarrow> Inl e
           | Inr solution_with \<Rightarrow>
               (let cost_savings = total_cost solution_without - total_cost solution_with
                in Inr \<lparr>without_tables = tables_used solution_without,
                        without_cost = total_cost solution_without,
                        without_edges = total_edges solution_without,
                        with_tables = tables_used solution_with,
                        with_views = views_used solution_with,
                        with_cost = total_cost solution_with,
                        with_edges = total_edges solution_with,
                        cost_reduction = py_round cost_savings 4,
                        cost_reduction_pct =
                          (if total_cost solution_without > 0
                           then py_round (cost_savings / total_cost solution_without * 100) 2 else 0),
                        tables_avoided = int (length (tables_used solution_without))
                                         - int (length (tables_used solution_with))\<rparr>)))"

section \<open>Example data\<close>

text \<open>A valid record, for concrete catalogs.\<close>

definition example_view :: "string \<Rightarrow> string \<Rightarrow> int \<Rightarrow> timestamp \<Rightarrow> view_metadata" where
  "example_view name st usage created =
     \<lparr>view_id = Some 1, view_name = name, layer = 1, domain = ''fraud'', description = None,
      base_tables = [], depends_on_views = [], used_by_views = [], created_date = Some created,
      status = st, promoted_date = None, usage_count = usage, last_used = None,
      freshness_type = ''LIVE'', last_validated = Some created, tags = [],
      view_definition = ''CREATE VIEW''\<rparr>"

text \<open>Two fraud views used equally often, the older one stored first.\<close>

definition tie_catalog :: catalog where
  "tie_catalog = [example_view ''v_old'' ''DRAFT'' 1 10, (example_view ''v_new'' ''DRAFT'' 1 20)\<lparr>view_id := Some 2\<rparr>]"

text \<open>A schema of two components, and a catalog with views over the smaller one.\<close>

definition ex_sg :: digraph where
  "ex_sg = \<lparr>dnodes = [''a'', ''b'', ''c'', ''d'', ''e''],
     dedges = [(''a'', ''b'', 1), (''c'', ''d'', 1), (''d'', ''e'', 1)]\<rparr>"

definition ex_cat :: catalog where
  "ex_cat = [(example_view ''v_x'' ''PROMOTED'' 3 1)\<lparr>base_tables := [''a'']\<rparr>,
             (example_view ''v_y'' ''MATERIALIZED'' 0 2)\<lparr>view_id := Some 2, base_tables := [''a'', ''ghost'']\<rparr>]"

text \<open>The unified graph of that schema and catalog, and its component with the most nodes.\<close>

definition ex_unified :: ugraph where
  "ex_unified =
     \<lparr>unodes = [(''a'', Some ''table''), (''b'', Some ''table''), (''c'', Some ''table''),
                (''d'', Some ''table''), (''e'', Some ''table''), (''v_x'', Some ''view''),
                (''v_y'', Some ''view'')],
      uedges = [(''a'', ''b'', 1), (''c'', ''d'', 1), (''d'', ''e'', 1),
                (''v_x'', ''a'', 0), (''v_y'', ''a'', 0)]\<rparr>"

definition ex_kept :: ugraph where
  "ex_kept =
     \<lparr>unodes = [(''a'', Some ''table''), (''b'', Some ''table''), (''v_x'', Some ''view''),
                (''v_y'', Some ''view'')],
      uedges = [(''a'', ''b'', 1), (''v_x'', ''a'', 0), (''v_y'', ''a'', 0)]\<rparr>"

section \<open>Properties of the catalog\<close>

subsection \<open>Registration and archival\<close>

lemmas example_simps = example_view_def from_db_row_def validate_view_name_def validate_layer_def
  validate_domain_def validate_status_def validate_freshness_type_def allowed_domains_def
  allowed_statuses_def allowed_types_def

lemma from_db_row_cases: "from_db_row r = Inr r \<or> (\<exists>e. from_db_row r = Inl e)"
  by (simp add: from_db_row_def)

lemma find_by_name_present:
  assumes "\<exists>r\<in>set c. view_name r = n"
  shows "(\<exists>e. find_by_name c n = Inl e) \<or> (\<exists>r. find_by_name c n = Inr (Some r))"
proof -
  from assms have "filter (\<lambda>r. view_name r = n) c \<noteq> []"
    by (auto simp: filter_empty_conv)
  then obtain r rs where "filter (\<lambda>r. view_name r = n) c = r # rs"
    by (cases "filter (\<lambda>r. view_name r = n) c") auto
  then show ?thesis
    using from_db_row_cases [of r] by (auto simp: find_by_name_def)
qed

lemma find_by_name_present_valid:
  assumes "\<exists>r\<in>set c. view_name r = n" and "valid_catalog c"
  shows "\<exists>r. find_by_name c n = Inr (Some r)"
proof -
  from assms have "filter (\<lambda>r. view_name r = n) c \<noteq> []"
    by (auto simp: filter_empty_conv)
  then obtain r rs where f: "filter (\<lambda>r. view_name r = n) c = r # rs"
    by (cases "filter (\<lambda>r. view_name r = n) c") auto
  then have "r \<in> set (filter (\<lambda>r. view_name r = n) c)" by simp
  then have "r \<in> set c" by simp
  with assms(2) have "from_db_row r = Inr r"
    by (simp add: valid_catalog_def list_all_iff)
  with f show ?thesis by (simp add: find_by_name_def)
qed

text \<open>
  Claim C5. For every catalog state and every view whose name is already stored,
  \<open>register_view\<close> raises and the table afterwards is the table before; when the
  stored rows are valid, what it raises is the duplicate-name error.
\<close>

theorem register_view_duplicate:
  assumes "\<exists>r\<in>set c. view_name r = view_name v"
  shows "snd (register_view now1 now2 v c) = c
       \<and> (\<exists>e. fst (register_view now1 now2 v c) = Inl e)
       \<and> (valid_catalog c \<longrightarrow>
            fst (register_view now1 now2 v c) = Inl (DuplicateView (view_name v)))"
proof -
  have 1: "snd (register_view now1 now2 v c) = c \<and> (\<exists>e. fst (register_view now1 now2 v c) = Inl e)"
    using find_by_name_present [OF assms] by (auto simp: register_view_def)
  have 2: "fst (register_view now1 now2 v c) = Inl (DuplicateView (view_name v))" if "valid_catalog c"
    using find_by_name_present_valid [OF assms that] by (auto simp: register_view_def)
  from 1 2 show ?thesis by blast
qed

theorem register_view_duplicate_witness:
  "(\<exists>r\<in>set [example_view ''v_a'' ''DRAFT'' 0 1]. view_name r = view_name (example_view ''v_a'' ''PROMOTED'' 7 2))
   \<and> valid_catalog [example_view ''v_a'' ''DRAFT'' 0 1]
   \<and> register_view 5 6 (example_view ''v_a'' ''PROMOTED'' 7 2) [example_view ''v_a'' ''DRAFT'' 0 1]
       = (Inl (DuplicateView ''v_a''), [example_view ''v_a'' ''DRAFT'' 0 1])"
proof -
  have h: "\<exists>r\<in>set [example_view ''v_a'' ''DRAFT'' 0 1]. view_name r = view_name (example_view ''v_a'' ''PROMOTED'' 7 2)"
    by (simp add: example_view_def)
  have v: "valid_catalog [example_view ''v_a'' ''DRAFT'' 0 1]"
    by (simp add: valid_catalog_def example_simps)
  from register_view_duplicate [OF h, of 5 6] v h show ?thesis
    by (simp add: prod_eq_iff example_view_def)
qed

text \<open>
  Claim C10. When the catalog holds a view named \<open>n\<close>, \<open>delete_view n\<close> (the archive
  operation) succeeds, keeps the number and order of the rows, turns each row named
  \<open>n\<close> into the same row with status ARCHIVED and nothing else changed, and leaves
  every other row as it was.
\<close>

theorem delete_view_frame:
  assumes "\<exists>r\<in>set c. view_name r = n"
  shows "fst (delete_view n c)
       \<and> length (snd (delete_view n c)) = length c
       \<and> (\<forall>i<length c.
            snd (delete_view n c) ! i =
              (if view_name (c ! i) = n then (c ! i)\<lparr>status := ''ARCHIVED''\<rparr> else c ! i))"
proof -
  from assms have "filter (\<lambda>r. view_name r = n) c \<noteq> []"
    by (auto simp: filter_empty_conv)
  then show ?thesis
    by (simp add: delete_view_def update_view_def execute_update_def)
qed

theorem delete_view_frame_witness:
  "(\<exists>r\<in>set [example_view ''v_a'' ''DRAFT'' 2 1, example_view ''v_b'' ''PROMOTED'' 4 2]. view_name r = ''v_a'')
   \<and> snd (delete_view ''v_a'' [example_view ''v_a'' ''DRAFT'' 2 1, example_view ''v_b'' ''PROMOTED'' 4 2])
       = [(example_view ''v_a'' ''DRAFT'' 2 1)\<lparr>status := ''ARCHIVED''\<rparr>, example_view ''v_b'' ''PROMOTED'' 4 2]"
proof -
  let ?c = "[example_view ''v_a'' ''DRAFT'' 2 1, example_view ''v_b'' ''PROMOTED'' 4 2]"
  have h: "\<exists>r\<in>set ?c. view_name r = ''v_a''"
    by (simp add: example_view_def)
  from delete_view_frame [OF h] have
    len: "length (snd (delete_view ''v_a'' ?c)) = 2"
    and el: "\<forall>i<2. snd (delete_view ''v_a'' ?c) ! i =
              (if view_name (?c ! i) = ''v_a'' then (?c ! i)\<lparr>status := ''ARCHIVED''\<rparr> else ?c ! i)"
    by simp_all
  from el have "snd (delete_view ''v_a'' ?c) ! 0 = (example_view ''v_a'' ''DRAFT'' 2 1)\<lparr>status := ''ARCHIVED''\<rparr>"
    by (simp add: example_view_def)
  moreover from el have "snd (delete_view ''v_a'' ?c) ! 1 = example_view ''v_b'' ''PROMOTED'' 4 2"
    by (simp add: example_view_def)
  ultimately have "snd (delete_view ''v_a'' ?c)
       = [(example_view ''v_a'' ''DRAFT'' 2 1)\<lparr>status := ''ARCHIVED''\<rparr>, example_view ''v_b'' ''PROMOTED'' 4 2]"
    using len by (auto simp: list_eq_iff_nth_eq less_Suc_eq numeral_2_eq_2)
  with h show ?thesis by blast
qed

subsection \<open>Usage counting and promotion\<close>





lemma usage_step_name [simp]: "view_name (usage_step now pnow r) = view_name r"
  by (simp add: usage_step_def Let_def)


lemma usage_steps_name [simp]: "view_name (usage_steps ts r) = view_name r"
  unfolding usage_steps_def by (induction ts arbitrary: r) (auto)









subsection \<open>Status transitions\<close>

lemma allowed_transition_trans:
  "allowed_transition a b \<Longrightarrow> allowed_transition b c \<Longrightarrow> allowed_transition a c"
  by (auto simp: allowed_transition_def)

lemma allowed_transition_refl: "allowed_transition a a"
  by (simp add: allowed_transition_def)

lemma extends_refl: "extends c c"
  by (simp add: extends_def allowed_transition_refl)

lemma extends_trans: "extends a b \<Longrightarrow> extends b c \<Longrightarrow> extends a c"
  unfolding extends_def
  by (meson allowed_transition_trans le_trans less_le_trans)

lemma extends_execute_update:
  assumes "\<And>r. cond r \<Longrightarrow> allowed_transition (status r) (status (upd r))"
  shows "extends c (snd (execute_update cond upd c))"
  using assms by (simp add: extends_def execute_update_def allowed_transition_refl)

lemma extends_promote: "extends c (snd (promote_view now name c))"
proof -
  have "extends c (snd (execute_update (\<lambda>r. view_name r = name \<and> status r = ''DRAFT'')
              (\<lambda>r. r\<lparr>status := ''PROMOTED'', promoted_date := Some now\<rparr>) c))"
    by (rule extends_execute_update) (simp add: allowed_transition_def)
  then show ?thesis by (simp add: promote_view_def split_def Let_def)
qed

lemma extends_increment: "extends c (snd (increment_usage now pnow name c))"
proof -
  let ?c1 = "snd (execute_update (\<lambda>r. view_name r = name)
              (\<lambda>r. r\<lparr>usage_count := usage_count r + 1, last_used := Some now\<rparr>) c)"
  have 1: "extends c ?c1"
    by (rule extends_execute_update) (simp add: allowed_transition_def)
  have 2: "extends c (snd (promote_view pnow name ?c1))"
    using extends_trans [OF 1 extends_promote] .
  have "snd (increment_usage now pnow name c) = ?c1 \<or>
        snd (increment_usage now pnow name c) = snd (promote_view pnow name ?c1)"
    by (simp add: increment_usage_def split_def Let_def split: sum.splits option.splits)
  with 1 2 show ?thesis by auto
qed

lemma extends_register: "extends c (snd (register_view now1 now2 view c))"
  by (auto simp: register_view_def extends_def Let_def nth_append allowed_transition_refl
      split: sum.splits option.splits)

lemma status_fold_safe:
  "list_all (\<lambda>u. writes_status u \<in> {None, Some ''ARCHIVED''}) us \<Longrightarrow>
     status (fold apply_update us r) = status r \<or> status (fold apply_update us r) = ''ARCHIVED''"
proof (induction us arbitrary: r)
  case Nil
  then show ?case by simp
next
  case (Cons u us)
  then have "status (apply_update u r) = status r \<or> status (apply_update u r) = ''ARCHIVED''"
    by (cases u) auto
  moreover have "status (fold apply_update us (apply_update u r)) = status (apply_update u r)
       \<or> status (fold apply_update us (apply_update u r)) = ''ARCHIVED''"
    using Cons by simp
  ultimately show ?case by auto
qed

lemma extends_update_safe:
  assumes "list_all (\<lambda>u. writes_status u \<in> {None, Some ''ARCHIVED''}) us"
  shows "extends c (snd (update_view name us c))"
proof (cases "us = []")
  case True
  then show ?thesis by (simp add: update_view_def extends_refl)
next
  case False
  have "extends c (snd (execute_update (\<lambda>r. view_name r = name) (\<lambda>r. fold apply_update us r) c))"
    by (rule extends_execute_update) (use status_fold_safe [OF assms] in \<open>auto simp: allowed_transition_def\<close>)
  with False show ?thesis by (simp add: update_view_def split_def Let_def)
qed

lemma extends_run_op: "status_safe op \<Longrightarrow> extends c (run_op op c)"
proof (cases op)
  case (Update name us)
  assume "status_safe op"
  with Update show ?thesis by (simp add: extends_update_safe)
next
  case (Archive name)
  have "extends c (snd (update_view name [Set_status ''ARCHIVED''] c))"
    by (rule extends_update_safe) simp
  with Archive show ?thesis by (simp add: delete_view_def)
qed (simp_all add: extends_register extends_increment extends_promote)

lemma length_run_op: "length c \<le> length (run_op op c)"
  by (cases op)
     (auto simp: register_view_def increment_usage_def promote_view_def update_view_def
        delete_view_def execute_update_def Let_def split: sum.splits option.splits)

text \<open>
  Claim C7, as amended. No history of catalog operations removes a record; and over a
  history of register, increment_usage, promote and archive calls, and of updates that
  write the status column with nothing but ARCHIVED, the status of every record changes
  only from DRAFT to PROMOTED or from any state to ARCHIVED.
\<close>

theorem catalog_status_transitions:
  "length c \<le> length (run_ops ops c)
   \<and> (list_all status_safe ops \<longrightarrow>
        (\<forall>i<length c. allowed_transition (status (c ! i)) (status (run_ops ops c ! i))))"
proof -
  have 1: "length c \<le> length (run_ops ops c)"
    unfolding run_ops_def
  proof (induction ops arbitrary: c)
    case Nil
    then show ?case by simp
  next
    case (Cons op ops)
    have "length c \<le> length (run_op op c)" by (rule length_run_op)
    also have "\<dots> \<le> length (fold run_op ops (run_op op c))" by (rule Cons.IH)
    finally show ?case by simp
  qed
  have 2: "list_all status_safe ops \<Longrightarrow> extends c (run_ops ops c)"
    unfolding run_ops_def
  proof (induction ops arbitrary: c)
    case Nil
    then show ?case by (simp add: extends_refl)
  next
    case (Cons op ops)
    then have "extends c (run_op op c)" "extends (run_op op c) (fold run_op ops (run_op op c))"
      by (simp_all add: extends_run_op)
    then show ?case using extends_trans by fastforce
  qed
  from 1 2 show ?thesis by (auto simp: extends_def)
qed

theorem catalog_status_transitions_witness:
  "list_all status_safe [Increment_usage 1 1 ''v_a'', Increment_usage 2 2 ''v_a'', Increment_usage 3 3 ''v_a'',
       Update ''v_a'' [Set_description (Some ''d'')], Archive ''v_a'']
   \<and> allowed_transition (status ([example_view ''v_a'' ''DRAFT'' 0 1] ! 0))
        (status (run_ops [Increment_usage 1 1 ''v_a'', Increment_usage 2 2 ''v_a'', Increment_usage 3 3 ''v_a'',
           Update ''v_a'' [Set_description (Some ''d'')], Archive ''v_a''] [example_view ''v_a'' ''DRAFT'' 0 1] ! 0))
   \<and> length [example_view ''v_a'' ''DRAFT'' 0 1]
      \<le> length (run_ops [Increment_usage 1 1 ''v_a'', Increment_usage 2 2 ''v_a'', Increment_usage 3 3 ''v_a'',
           Update ''v_a'' [Set_description (Some ''d'')], Archive ''v_a''] [example_view ''v_a'' ''DRAFT'' 0 1])"
  using catalog_status_transitions [of "[example_view ''v_a'' ''DRAFT'' 0 1]"
      "[Increment_usage 1 1 ''v_a'', Increment_usage 2 2 ''v_a'', Increment_usage 3 3 ''v_a'',
           Update ''v_a'' [Set_description (Some ''d'')], Archive ''v_a'']"]
  by simp

text \<open>
  Claim C7 as stated fails: \<open>update_view\<close> writes any column, so an update takes an
  ARCHIVED record back to DRAFT.
\<close>

theorem catalog_status_transitions_counterexample:
  "\<not> allowed_transition
        (status ([example_view ''v_a'' ''ARCHIVED'' 0 1] ! 0))
        (status (run_ops [Update ''v_a'' [Set_status ''DRAFT'']] [example_view ''v_a'' ''ARCHIVED'' 0 1] ! 0))"
  by (simp add: run_ops_def update_view_def execute_update_def example_view_def allowed_transition_def)

subsection \<open>Ordering of the scans\<close>

text \<open>What \<open>find_by_domain\<close> does return on a valid catalog: the records of the domain,
  each as often as it is stored, by usage_count descending.\<close>

lemma from_db_rows_valid:
  "list_all (\<lambda>r. from_db_row r = Inr r) rs \<Longrightarrow> from_db_rows rs = Inr rs"
  by (induction rs) auto

lemma find_by_domain_sorted:
  assumes "valid_catalog c"
  shows "\<exists>rs. find_by_domain c d None = Inr rs
            \<and> mset rs = mset (filter (\<lambda>r. domain r = d) c)
            \<and> sorted (map (\<lambda>r. - usage_count r) rs)"
proof -
  let ?rows = "sort_key (\<lambda>r. - usage_count r) (filter (\<lambda>r. domain r = d) c)"
  have "set ?rows \<subseteq> set c" by auto
  then have "list_all (\<lambda>r. from_db_row r = Inr r) ?rows"
    using assms by (auto simp: valid_catalog_def list_all_iff)
  then have "find_by_domain c d None = Inr ?rows"
    by (simp add: find_by_domain_def from_db_rows_valid)
  moreover have "mset ?rows = mset (filter (\<lambda>r. domain r = d) c)" by simp
  moreover have "sorted (map (\<lambda>r. - usage_count r) ?rows)" by (rule sorted_sort_key)
  ultimately show ?thesis by blast
qed

text \<open>
  Claim C8. Two fraud views with the same usage_count, the older one stored first:
  \<open>find_by_domain\<close> orders by usage_count alone and returns the older one first, where
  \<open>get_all_views\<close>, which also orders by creation date, returns the newer one first.
\<close>

theorem find_by_domain_ties:
  "find_by_domain tie_catalog ''fraud'' None
     = Inr [example_view ''v_old'' ''DRAFT'' 1 10, (example_view ''v_new'' ''DRAFT'' 1 20)\<lparr>view_id := Some 2\<rparr>]
   \<and> get_all_views tie_catalog None None
     = Inr [(example_view ''v_new'' ''DRAFT'' 1 20)\<lparr>view_id := Some 2\<rparr>, example_view ''v_old'' ''DRAFT'' 1 10]"
  by (simp add: find_by_domain_def get_all_views_def tie_catalog_def example_simps created_desc_key_def)

section \<open>Properties of the schema graph and the solver\<close>

subsection \<open>Unknown tables\<close>

lemma node_names_ensure_node:
  "has_node g n \<Longrightarrow> ensure_node g n = g"
  by (simp add: ensure_node_def)

lemma node_names_add_edge:
  "has_node g u \<Longrightarrow> has_node g v \<Longrightarrow> node_names (add_edge g u v w) = node_names g"
  by (simp add: add_edge_def ensure_node_def node_names_def Let_def)

lemma node_names_fold_add_edge:
  "\<forall>e\<in>set es. has_node g (fst e) \<and> has_node g (fst (snd e)) \<Longrightarrow>
     node_names (fold (\<lambda>e g. add_edge g (fst e) (fst (snd e)) (snd (snd e))) es g) = node_names g"
proof (induction es arbitrary: g)
  case Nil
  then show ?case by simp
next
  case (Cons e es)
  let ?g1 = "add_edge g (fst e) (fst (snd e)) (snd (snd e))"
  have n1: "node_names ?g1 = node_names g"
    using Cons.prems by (simp add: node_names_add_edge)
  then have "\<forall>e\<in>set es. has_node ?g1 (fst e) \<and> has_node ?g1 (fst (snd e))"
    using Cons.prems by (simp add: has_node_def)
  from Cons.IH [OF this] n1 show ?case by simp
qed

lemma node_names_to_undirected:
  assumes "wf_digraph sg"
  shows "node_names (to_undirected sg) = dnodes sg"
proof -
  let ?g0 = "\<lparr>unodes = map (\<lambda>n. (n, Some ''table'')) (dnodes sg), uedges = []\<rparr>"
  let ?es = "concat (map (\<lambda>u. filter (\<lambda>e. fst e = u) (dedges sg)) (dnodes sg))"
  have n0: "node_names ?g0 = dnodes sg"
    by (simp add: node_names_def comp_def)
  have "set ?es \<subseteq> set (dedges sg)" by auto
  then have "\<forall>e\<in>set ?es. has_node ?g0 (fst e) \<and> has_node ?g0 (fst (snd e))"
    using assms n0 by (auto simp: wf_digraph_def list_all_iff has_node_def)
  from node_names_fold_add_edge [OF this] n0 show ?thesis
    by (simp add: to_undirected_def)
qed

text \<open>
  Claim C3, as amended. For a table that is not a node of the schema graph:
  \<open>calculate_join_cost\<close> returns infinity and \<open>get_connected_tables\<close> returns the
  empty list, neither raises; \<open>get_shortest_path\<close> fails with the library's
  node-not-found error and \<open>get_table_info\<close> with its ValueError.
\<close>

theorem unknown_table_results:
  assumes "wf_digraph sg" and "t \<notin> set (dnodes sg)"
  shows "calculate_join_cost search sg t other = Inr Infinite
       \<and> calculate_join_cost search sg other t = Inr Infinite
       \<and> get_connected_tables sg t max_depth = []
       \<and> get_shortest_path search sg t other = Inl (NetworkXNodeNotFound t)
       \<and> (other \<in> set (dnodes sg) \<longrightarrow>
            get_shortest_path search sg other t = Inl (NetworkXNodeNotFound t))
       \<and> get_table_info sg t = Inl (TableNotInGraph t)"
proof -
  have n: "\<not> has_node (to_undirected sg) t"
    using assms by (simp add: has_node_def node_names_to_undirected)
  have o: "has_node (to_undirected sg) other" if "other \<in> set (dnodes sg)"
    using assms that by (simp add: has_node_def node_names_to_undirected)
  show ?thesis
    using assms(2) n o
    by (simp add: calculate_join_cost_def get_connected_tables_def get_shortest_path_def
        nx_shortest_path_def get_table_info_def)
qed

theorem unknown_table_results_witness:
  "wf_digraph ex_sg \<and> ''zz'' \<notin> set (dnodes ex_sg) \<and> ''a'' \<in> set (dnodes ex_sg)
   \<and> calculate_join_cost (\<lambda>g s t. None) ex_sg ''zz'' ''a'' = Inr Infinite
   \<and> get_connected_tables ex_sg ''zz'' 2 = []
   \<and> get_shortest_path (\<lambda>g s t. None) ex_sg ''a'' ''zz'' = Inl (NetworkXNodeNotFound ''zz'')"
proof -
  have w: "wf_digraph ex_sg" by (simp add: wf_digraph_def ex_sg_def)
  have u: "''zz'' \<notin> set (dnodes ex_sg)" by (simp add: ex_sg_def)
  have a: "''a'' \<in> set (dnodes ex_sg)" by (simp add: ex_sg_def)
  from unknown_table_results [OF w u, of "\<lambda>g s t. None" "''a''" 2] w u a show ?thesis by simp
qed

text \<open>
  Claim C3 as stated fails: with the unknown table \<open>zz\<close>, the join cost is the value
  infinity and the connected tables are the empty list; nothing is raised.
\<close>

theorem unknown_table_counterexample:
  "calculate_join_cost (\<lambda>g s t. None) ex_sg ''zz'' ''a'' = Inr Infinite
   \<and> get_connected_tables ex_sg ''zz'' 2 = []"
  by (simp add: calculate_join_cost_def get_connected_tables_def ex_sg_def)

subsection \<open>Disconnected working graphs\<close>

lemma grow_subset: "set (grow g vs) \<subseteq> set (node_names g)"
  by (auto simp: grow_def)

lemma max_by_len_fold:
  "fold (\<lambda>x best. if length best < length x then x else best) cs c \<in> set (c # cs)
   \<and> (\<forall>x\<in>set (c # cs). length x \<le> length (fold (\<lambda>x best. if length best < length x then x else best) cs c))"
proof (induction cs arbitrary: c)
  case Nil
  then show ?case by simp
next
  case (Cons a cs)
  let ?c' = "if length c < length a then a else c"
  from Cons.IH [of ?c'] show ?case by (auto split: if_splits)
qed

lemma max_by_len_greatest:
  assumes "cs \<noteq> []"
  shows "max_by_len cs \<in> set cs \<and> (\<forall>x\<in>set cs. length x \<le> length (max_by_len cs))"
proof -
  from assms obtain c cs' where "cs = c # cs'" by (cases cs) auto
  then show ?thesis using max_by_len_fold [of cs' c] by simp
qed

lemma component_subset:
  assumes "unodes g \<noteq> []"
  shows "set (component g v) \<subseteq> set (node_names g)"
proof -
  from assms obtain n where "length (unodes g) = Suc n"
    by (cases "unodes g") auto
  then show ?thesis
    using grow_subset by (simp add: component_def)
qed

lemma components_from_are_components:
  "c \<in> set (components_from g seen vs) \<Longrightarrow> \<exists>v\<in>set vs. c = component g v"
  by (induction vs arbitrary: seen) (auto split: if_splits)

lemma has_node_subgraph_of:
  "has_node (subgraph_of g ns) t \<longleftrightarrow> has_node g t \<and> t \<in> set ns"
  by (auto simp: has_node_def subgraph_of_def node_names_def)

lemma connected_components_nonempty:
  "node_names g \<noteq> [] \<Longrightarrow> connected_components g \<noteq> []"
  by (cases "node_names g") (simp_all add: connected_components_def)

text \<open>
  Claim C4, as amended. On a disconnected working graph, for two or more terminals of
  the schema, \<open>solve\<close> keeps the component with the most nodes (one of greatest
  length among the components), drops the terminals outside it, and returns the empty
  result when none remains, the single-table result when one remains, and otherwise the
  analysed Steiner tree of the kept component for the remaining terminals.
\<close>

theorem solve_disconnected:
  assumes "working_graph sg cat use_views = Inr graph"
    and "is_connected graph = Inr False"
    and "set terminals \<subseteq> set (dnodes sg)"
    and "2 \<le> length terminals"
  shows "max_by_len (connected_components graph) \<in> set (connected_components graph)
       \<and> (\<forall>c\<in>set (connected_components graph).
             length c \<le> length (max_by_len (connected_components graph)))
       \<and> solve steiner sg cat terminals use_views =
           (let largest = max_by_len (connected_components graph);
                valid = filter (\<lambda>t. t \<in> set largest) terminals
            in if valid = [] then Inr empty_result
               else if length valid = 1 then Inr (single_table_result (hd valid))
               else Inr (analyze_solution (steiner (subgraph_of graph largest) valid) valid use_views))"
proof -
  let ?comps = "connected_components graph"
  let ?largest = "max_by_len ?comps"
  from assms(2) have ne: "node_names graph \<noteq> []"
    by (auto simp: is_connected_def split: list.splits)
  then have une: "unodes graph \<noteq> []" by (auto simp: node_names_def)
  from max_by_len_greatest [OF connected_components_nonempty [OF ne]]
  have big: "?largest \<in> set ?comps" "\<forall>c\<in>set ?comps. length c \<le> length ?largest"
    by simp_all
  from big(1) obtain v where "?largest = component graph v"
    using components_from_are_components [of ?largest graph "[]" "node_names graph"]
    by (auto simp: connected_components_def)
  then have sub: "set ?largest \<subseteq> set (node_names graph)"
    using component_subset [OF une, of v] by simp
  have valid: "filter (has_node (subgraph_of graph ?largest)) terminals
             = filter (\<lambda>t. t \<in> set ?largest) terminals"
    unfolding has_node_subgraph_of using sub by (intro filter_cong) (auto simp: has_node_def)
  have missing: "filter (\<lambda>t. t \<notin> set (dnodes sg)) terminals = []"
    using assms(3) by (auto simp: filter_empty_conv)
  have len: "length terminals \<noteq> 0" "length terminals \<noteq> 1"
    using assms(4) by auto
  have "solve steiner sg cat terminals use_views = solve_on steiner graph terminals use_views"
    using missing len assms(1) by (simp add: solve_def)
  also have "\<dots> = (let largest = ?largest; valid = filter (\<lambda>t. t \<in> set largest) terminals
            in if valid = [] then Inr empty_result
               else if length valid = 1 then Inr (single_table_result (hd valid))
               else Inr (analyze_solution (steiner (subgraph_of graph largest) valid) valid use_views))"
    using assms(2) valid by (simp add: solve_on_def Let_def)
  finally show ?thesis using big by simp
qed

lemmas graph_eval = to_undirected_def add_edge_def ensure_node_def has_node_def node_names_def
  has_uedge_def joins_def component_def grow_def connected_components_def is_connected_def
  subgraph_of_def

lemma ex_sg_undirected:
  "to_undirected ex_sg =
     \<lparr>unodes = [(''a'', Some ''table''), (''b'', Some ''table''), (''c'', Some ''table''),
                (''d'', Some ''table''), (''e'', Some ''table'')],
      uedges = [(''a'', ''b'', 1), (''c'', ''d'', 1), (''d'', ''e'', 1)]\<rparr>"
  by (simp add: ex_sg_def graph_eval)

lemma ex_sg_components:
  "connected_components (to_undirected ex_sg) = [[''a'', ''b''], [''c'', ''d'', ''e'']]"
  unfolding ex_sg_undirected by (simp add: graph_eval)

lemma ex_sg_disconnected: "is_connected (to_undirected ex_sg) = Inr False"
  unfolding ex_sg_undirected by (simp add: graph_eval)

text \<open>
  Claim C4 as stated fails: the component \<open>{a, b}\<close> holds both terminals, but the
  component kept is the larger \<open>{c, d, e}\<close>, which holds none, and the result is empty.
\<close>

theorem solve_disconnected_counterexample:
  "connected_components (to_undirected ex_sg) = [[''a'', ''b''], [''c'', ''d'', ''e'']]
   \<and> max_by_len (connected_components (to_undirected ex_sg)) = [''c'', ''d'', ''e'']
   \<and> solve (\<lambda>g T. g) ex_sg None [''a'', ''b''] False = Inr empty_result"
proof -
  have "solve (\<lambda>g T. g) ex_sg None [''a'', ''b''] False
      = solve_on (\<lambda>g T. g) (to_undirected ex_sg) [''a'', ''b''] False"
    by (simp add: solve_def working_graph_def ex_sg_def)
  also have "\<dots> = Inr empty_result"
    by (simp add: solve_on_def ex_sg_disconnected ex_sg_components)
       (simp add: ex_sg_undirected subgraph_of_def has_node_def node_names_def)
  finally show ?thesis by (simp add: ex_sg_components)
qed

theorem solve_disconnected_witness:
  "working_graph ex_sg None False = Inr (to_undirected ex_sg)
   \<and> is_connected (to_undirected ex_sg) = Inr False
   \<and> set [''a'', ''c'', ''e''] \<subseteq> set (dnodes ex_sg)
   \<and> solve (\<lambda>g T. g) ex_sg None [''a'', ''c'', ''e''] False
       = Inr (analyze_solution (subgraph_of (to_undirected ex_sg) [''c'', ''d'', ''e''])
                [''c'', ''e''] False)"
proof -
  have w: "working_graph ex_sg None False = Inr (to_undirected ex_sg)"
    by (simp add: working_graph_def)
  have t: "set [''a'', ''c'', ''e''] \<subseteq> set (dnodes ex_sg)" by (simp add: ex_sg_def)
  have l: "2 \<le> length [''a'', ''c'', ''e'']" by simp
  from solve_disconnected [OF w ex_sg_disconnected t l, of "\<lambda>g T. g"] w t ex_sg_disconnected
  show ?thesis by (simp add: ex_sg_components)
qed

subsection \<open>The unified graph\<close>


subsection \<open>add_edge between two nodes\<close>

lemma add_edge_unodes:
  "has_node g u \<Longrightarrow> has_node g v \<Longrightarrow> unodes (add_edge g u v w) = unodes g"
  by (simp add: add_edge_def ensure_node_def Let_def)

lemma add_edge_uedges:
  "has_node g u \<Longrightarrow> has_node g v \<Longrightarrow>
     uedges (add_edge g u v w) =
       (if has_uedge g u v
        then map (\<lambda>e. if joins u v e then (fst e, fst (snd e), w) else e) (uedges g)
        else uedges g @ [(u, v, w)])"
  by (simp add: add_edge_def ensure_node_def Let_def)

lemma add_edge_keeps:
  assumes "has_node g u" "has_node g v" "e \<in> set (uedges g)"
  shows "\<exists>e'\<in>set (uedges (add_edge g u v w)). fst e' = fst e \<and> fst (snd e') = fst (snd e)
            \<and> (snd (snd e') = snd (snd e) \<or> snd (snd e') = w)"
proof (cases "has_uedge g u v")
  case True
  let ?f = "\<lambda>e. if joins u v e then (fst e, fst (snd e), w) else e"
  have "?f e \<in> set (uedges (add_edge g u v w))"
    using assms True by (simp add: add_edge_uedges)
  moreover have "fst (?f e) = fst e \<and> fst (snd (?f e)) = fst (snd e)
       \<and> (snd (snd (?f e)) = snd (snd e) \<or> snd (snd (?f e)) = w)"
    by simp
  ultimately show ?thesis by blast
next
  case False
  then have "e \<in> set (uedges (add_edge g u v w))"
    using assms by (simp add: add_edge_uedges)
  then show ?thesis by blast
qed



subsection \<open>Adding one view\<close>

lemma has_node_unodes: "unodes g' = unodes g \<Longrightarrow> has_node g' n = has_node g n"
  by (simp add: has_node_def node_names_def)

lemma keeps_edge_trans:
  assumes "keeps_edge g1 e" and "\<And>e1. e1 \<in> set (uedges g1) \<Longrightarrow> keeps_edge g2 e1"
  shows "keeps_edge g2 e"
proof -
  from assms(1) obtain e1 where e1: "e1 \<in> set (uedges g1)" "fst e1 = fst e"
    "fst (snd e1) = fst (snd e)" "snd (snd e1) = snd (snd e) \<or> snd (snd e1) = 0"
    by (auto simp: keeps_edge_def list_ex_iff)
  from assms(2) [OF e1(1)] obtain e2 where e2: "e2 \<in> set (uedges g2)" "fst e2 = fst e1"
    "fst (snd e2) = fst (snd e1)" "snd (snd e2) = snd (snd e1) \<or> snd (snd e2) = 0"
    by (auto simp: keeps_edge_def list_ex_iff)
  from e1 e2 have "fst e2 = fst e \<and> fst (snd e2) = fst (snd e)
      \<and> (snd (snd e2) = snd (snd e) \<or> snd (snd e2) = 0)" by auto
  with e2(1) show ?thesis by (auto simp: keeps_edge_def list_ex_iff)
qed

lemma keeps_edge_self: "e \<in> set (uedges g) \<Longrightarrow> keeps_edge g e"
  by (auto simp: keeps_edge_def list_ex_iff)


lemma link_tables_Cons:
  "link_tables name (t # ts) g =
     link_tables name ts (if has_node g t then add_edge g name t 0 else g)"
  by (simp add: link_tables_def)

lemma link_step_unodes:
  "has_node g name \<Longrightarrow> unodes (if has_node g t then add_edge g name t 0 else g) = unodes g"
  by (simp add: add_edge_unodes)

lemma link_tables_unodes:
  "has_node g name \<Longrightarrow> unodes (link_tables name ts g) = unodes g"
proof (induction ts arbitrary: g)
  case Nil
  then show ?case by (simp add: link_tables_def)
next
  case (Cons t ts)
  let ?g1 = "if has_node g t then add_edge g name t 0 else g"
  have u: "unodes ?g1 = unodes g" using Cons.prems by (rule link_step_unodes)
  then have "has_node ?g1 name" using Cons.prems has_node_unodes by blast
  from Cons.IH [OF this] u show ?case by (simp only: link_tables_Cons)
qed

lemma link_step_keeps:
  assumes "has_node g name" and "e \<in> set (uedges g)"
  shows "keeps_edge (if has_node g t then add_edge g name t 0 else g) e"
proof (cases "has_node g t")
  case True
  from add_edge_keeps [OF assms(1) True assms(2), of 0] True show ?thesis
    by (auto simp: keeps_edge_def list_ex_iff)
next
  case False
  then show ?thesis using assms(2) by (simp add: keeps_edge_self)
qed

lemma link_tables_keeps:
  "has_node g name \<Longrightarrow> e \<in> set (uedges g) \<Longrightarrow> keeps_edge (link_tables name ts g) e"
proof (induction ts arbitrary: g e)
  case Nil
  then show ?case by (simp add: link_tables_def keeps_edge_self)
next
  case (Cons t ts)
  let ?g1 = "if has_node g t then add_edge g name t 0 else g"
  have u: "unodes ?g1 = unodes g" using Cons.prems(1) by (rule link_step_unodes)
  then have n1: "has_node ?g1 name" using Cons.prems(1) has_node_unodes by blast
  have k1: "keeps_edge ?g1 e" using Cons.prems by (rule link_step_keeps)
  have "keeps_edge (link_tables name ts ?g1) e"
    using k1 Cons.IH [OF n1] by (rule keeps_edge_trans)
  then show ?case by (simp only: link_tables_Cons)
qed



lemma map_fst_retype: "map fst (map (\<lambda>p. if fst p = n then (n, ty) else p) xs) = map fst xs"
  by (induction xs) auto

lemma add_node_node_names:
  "node_names (add_node g n ty) = (if has_node g n then node_names g else node_names g @ [n])"
  by (simp add: add_node_def node_names_def map_fst_retype)

lemma add_node_has: "has_node (add_node g n ty) n"
  by (simp add: has_node_def add_node_node_names)

lemma add_node_names:
  "set (node_names (add_node g n ty)) = insert n (set (node_names g))"
  by (auto simp: add_node_node_names has_node_def)

lemma add_node_uedges: "uedges (add_node g n ty) = uedges g"
  by (simp add: add_node_def)



lemma add_view_link:
  "add_view v g = link_tables (view_name v) (base_tables v) (add_node g (view_name v) (Some ''view''))"
  by (simp add: add_view_def)

lemma add_view_unodes:
  "unodes (add_view v g) = unodes (add_node g (view_name v) (Some ''view''))"
  by (simp add: add_view_link link_tables_unodes add_node_has)

lemma add_view_names: "set (node_names (add_view v g)) = insert (view_name v) (set (node_names g))"
  using add_view_unodes [of v g] add_node_names [of g "view_name v" "Some ''view''"]
  by (simp add: node_names_def)

lemma add_view_keeps: "e \<in> set (uedges g) \<Longrightarrow> keeps_edge (add_view v g) e"
  by (simp add: add_view_link link_tables_keeps add_node_has add_node_uedges)





subsection \<open>Adding the views of the catalog\<close>

lemma fold_add_view_names:
  "set (node_names (fold add_view vs g)) = set (node_names g) \<union> view_name ` set vs"
  by (induction vs arbitrary: g) (auto simp: add_view_names)

lemma fold_add_view_keeps:
  "e \<in> set (uedges g) \<Longrightarrow> keeps_edge (fold add_view vs g) e"
proof (induction vs arbitrary: g e)
  case Nil
  then show ?case by (simp add: keeps_edge_self)
next
  case (Cons v vs)
  have "keeps_edge (add_view v g) e" using Cons.prems by (rule add_view_keeps)
  then have "keeps_edge (fold add_view vs (add_view v g)) e"
    using Cons.IH by (rule keeps_edge_trans)
  then show ?case by simp
qed










lemma ex_build_unified: "build_unified_graph ex_sg ex_cat = Inr ex_unified"
proof -
  have p: "get_all_views ex_cat None (Some ''PROMOTED'')
         = Inr [(example_view ''v_x'' ''PROMOTED'' 3 1)\<lparr>base_tables := [''a'']\<rparr>]"
    by (simp add: get_all_views_def ex_cat_def example_simps created_desc_key_def)
  have m: "get_all_views ex_cat None (Some ''MATERIALIZED'')
         = Inr [(example_view ''v_y'' ''MATERIALIZED'' 0 2)\<lparr>view_id := Some 2, base_tables := [''a'', ''ghost'']\<rparr>]"
    by (simp add: get_all_views_def ex_cat_def example_simps created_desc_key_def)
  show ?thesis
    unfolding build_unified_graph_def p m ex_sg_undirected
    by (simp add: ex_unified_def add_view_def link_tables_def add_node_def add_edge_def ensure_node_def
        has_node_def node_names_def has_uedge_def joins_def example_view_def)
qed



subsection \<open>Comparing the solves with and without views\<close>

lemma round_half_even_ge_floor: "\<lfloor>y\<rfloor> \<le> round_half_even y"
  by (simp add: round_half_even_def Let_def)

lemma py_round_zero: "py_round 0 d = 0"
  by (simp add: py_round_def round_half_even_def)

lemma py_round_ge_one:
  assumes "1 \<le> x"
  shows "1 \<le> py_round x 4"
proof -
  have "(10000::real) \<le> x * 10 ^ 4" using assms by simp
  then have "(10000::int) \<le> \<lfloor>x * 10 ^ 4\<rfloor>" by (simp add: le_floor_iff)
  also have "\<dots> \<le> round_half_even (x * 10 ^ 4)" by (rule round_half_even_ge_floor)
  finally have "(10000::real) \<le> of_int (round_half_even (x * 10 ^ 4))" by linarith
  then show ?thesis by (simp add: py_round_def)
qed

lemma member_le_sum_list_real:
  fixes xs :: "real list"
  shows "\<forall>x\<in>set xs. 0 \<le> x \<Longrightarrow> y \<in> set xs \<Longrightarrow> y \<le> sum_list xs"
proof (induction xs)
  case Nil
  then show ?case by simp
next
  case (Cons a xs)
  have nn: "0 \<le> sum_list xs" using Cons.prems(1) by (simp add: sum_list_nonneg)
  show ?case
  proof (cases "y = a")
    case True
    with nn show ?thesis by simp
  next
    case False
    with Cons have "y \<le> sum_list xs" by simp
    moreover have "0 \<le> a" using Cons.prems(1) by simp
    ultimately show ?thesis by simp
  qed
qed

lemma linked_needs_edge:
  assumes "linked h a b" and "a \<noteq> b"
  shows "\<exists>z. has_uedge h z b"
proof -
  from assms(1) have "(a, b) \<in> {(u, v). has_uedge h u v}\<^sup>*" by (simp add: linked_def)
  then show ?thesis
  proof (cases rule: rtranclE)
    case base
    with assms(2) show ?thesis by simp
  next
    case (step y)
    then show ?thesis by auto
  qed
qed

lemma working_graph_without: "working_graph sg cat False = Inr (to_undirected sg)"
  by (cases cat) (simp_all add: working_graph_def)

lemma ex_solve_without:
  "solve steiner ex_sg cat [''a'', ''b''] False = Inr empty_result"
proof -
  have "solve steiner ex_sg cat [''a'', ''b''] False
      = solve_on steiner (to_undirected ex_sg) [''a'', ''b''] False"
    by (simp add: solve_def working_graph_without) (simp add: ex_sg_def)
  also have "\<dots> = Inr empty_result"
    by (simp add: solve_on_def ex_sg_disconnected ex_sg_components)
       (simp add: ex_sg_undirected subgraph_of_def has_node_def node_names_def)
  finally show ?thesis .
qed

lemma ex_unified_components:
  "connected_components ex_unified = [[''a'', ''b'', ''v_x'', ''v_y''], [''c'', ''d'', ''e'']]"
  by (simp add: ex_unified_def graph_eval)

lemma ex_unified_disconnected: "is_connected ex_unified = Inr False"
  by (simp add: ex_unified_def graph_eval)

lemma ex_unified_kept: "subgraph_of ex_unified [''a'', ''b'', ''v_x'', ''v_y''] = ex_kept"
  by (simp add: ex_unified_def ex_kept_def subgraph_of_def)

lemma ex_solve_with:
  "solve steiner ex_sg (Some ex_cat) [''a'', ''b''] True
     = Inr (analyze_solution (steiner ex_kept [''a'', ''b'']) [''a'', ''b''] True)"
proof -
  have "solve steiner ex_sg (Some ex_cat) [''a'', ''b''] True
      = solve_on steiner ex_unified [''a'', ''b''] True"
    by (simp add: solve_def working_graph_def ex_build_unified) (simp add: ex_sg_def)
  also have "\<dots> = Inr (analyze_solution (steiner ex_kept [''a'', ''b'']) [''a'', ''b''] True)"
    by (simp add: solve_on_def ex_unified_disconnected ex_unified_components ex_unified_kept)
       (simp add: ex_kept_def has_node_def node_names_def Let_def)
  finally show ?thesis .
qed

lemma ex_spanning_cost:
  assumes "spans h ex_kept [''a'', ''b'']"
  shows "1 \<le> total_cost (analyze_solution h terminals used)"
proof -
  from assms have sub: "set (uedges h) \<subseteq> set (uedges ex_kept)" and l: "linked h ''a'' ''b''"
    by (simp_all add: spans_def)
  from linked_needs_edge [OF l] obtain z where "has_uedge h z ''b''" by auto
  then obtain e where e: "e \<in> set (uedges h)" "joins z ''b'' e"
    by (auto simp: has_uedge_def list_ex_iff)
  with sub have "e \<in> set (uedges ex_kept)" by blast
  with e(2) have "e = (''a'', ''b'', 1)"
    by (auto simp: ex_kept_def joins_def)
  with e(1) have one: "(1::real) \<in> set (map (\<lambda>e. snd (snd e)) (uedges h))" by force
  have "\<forall>x\<in>set (map (\<lambda>e. snd (snd e)) (uedges h)). 0 \<le> x"
    using sub by (auto simp: ex_kept_def)
  from member_le_sum_list_real [OF this one]
  have "1 \<le> sum_list (map (\<lambda>e. snd (snd e)) (uedges h))" .
  from py_round_ge_one [OF this] show ?thesis by (simp add: analyze_solution_def)
qed

text \<open>
  Claim C1 as stated fails. Schema: \<open>a - b\<close> and \<open>c - d - e\<close>, every edge of weight 1;
  two usable views over \<open>a\<close>; terminals \<open>a, b\<close>. Without views the component kept is
  \<open>{c, d, e}\<close>, no terminal remains and the cost is 0. With views the component kept is
  \<open>{a, b, v_x, v_y}\<close>, and whatever graph spanning \<open>a\<close> and \<open>b\<close> the Steiner routine
  returns has the edge \<open>a - b\<close>: the cost is at least 1.
\<close>

theorem compare_solutions_cost_counterexample:
  "spans (subgraph_of ex_kept [''a'', ''b'']) ex_kept [''a'', ''b'']
   \<and> \<not> (\<exists>steiner r. spans (steiner ex_kept [''a'', ''b'']) ex_kept [''a'', ''b'']
          \<and> compare_solutions steiner ex_sg (Some ex_cat) [''a'', ''b''] = Inr r
          \<and> with_cost r \<le> without_cost r)
   \<and> (\<exists>r. compare_solutions (\<lambda>g T. subgraph_of g T) ex_sg (Some ex_cat) [''a'', ''b''] = Inr r
          \<and> without_cost r = 0 \<and> 1 \<le> with_cost r)"
proof -
  have cmp: "compare_solutions steiner ex_sg (Some ex_cat) [''a'', ''b''] = Inr r \<Longrightarrow>
      without_cost r = 0
      \<and> with_cost r = total_cost (analyze_solution (steiner ex_kept [''a'', ''b'']) [''a'', ''b''] True)"
    for steiner r
    by (auto simp: compare_solutions_def ex_solve_without ex_solve_with empty_result_def Let_def)
  have ex: "\<exists>r. compare_solutions steiner ex_sg (Some ex_cat) [''a'', ''b''] = Inr r" for steiner
    by (simp add: compare_solutions_def ex_solve_without ex_solve_with Let_def)
  have sp: "spans (subgraph_of ex_kept [''a'', ''b'']) ex_kept [''a'', ''b'']"
  proof -
    let ?h = "subgraph_of ex_kept [''a'', ''b'']"
    have ab: "has_uedge ?h ''a'' ''b''" and ba: "has_uedge ?h ''b'' ''a''"
      by (simp_all add: subgraph_of_def ex_kept_def has_uedge_def joins_def)
    have "linked ?h ''a'' ''b''" "linked ?h ''b'' ''a''" "linked ?h ''a'' ''a''" "linked ?h ''b'' ''b''"
      using ab ba by (auto simp: linked_def)
    moreover have "set (uedges ?h) \<subseteq> set (uedges ex_kept)"
      by (simp add: subgraph_of_def)
    ultimately show ?thesis by (simp add: spans_def)
  qed
  have no: "\<not> (\<exists>steiner r. spans (steiner ex_kept [''a'', ''b'']) ex_kept [''a'', ''b'']
          \<and> compare_solutions steiner ex_sg (Some ex_cat) [''a'', ''b''] = Inr r
          \<and> with_cost r \<le> without_cost r)"
  proof
    assume "\<exists>steiner r. spans (steiner ex_kept [''a'', ''b'']) ex_kept [''a'', ''b'']
          \<and> compare_solutions steiner ex_sg (Some ex_cat) [''a'', ''b''] = Inr r
          \<and> with_cost r \<le> without_cost r"
    then obtain steiner r where s: "spans (steiner ex_kept [''a'', ''b'']) ex_kept [''a'', ''b'']"
      and c: "compare_solutions steiner ex_sg (Some ex_cat) [''a'', ''b''] = Inr r"
      and le: "with_cost r \<le> without_cost r"
      by blast
    from cmp [OF c] ex_spanning_cost [OF s, of "[''a'', ''b'']" True]
    have "without_cost r = 0" "1 \<le> with_cost r" by simp_all
    with le show False by simp
  qed
  from ex [of "\<lambda>g T. subgraph_of g T"] obtain r where
    r: "compare_solutions (\<lambda>g T. subgraph_of g T) ex_sg (Some ex_cat) [''a'', ''b''] = Inr r"
    by blast
  from cmp [OF r] ex_spanning_cost [OF sp, of "[''a'', ''b'']" True]
  have "without_cost r = 0 \<and> 1 \<le> with_cost r" by simp
  with r sp no show ?thesis by blast
qed

lemma solve_small_cost:
  assumes "length terminals \<le> 1" and "solve steiner sg cat terminals use_views = Inr s"
  shows "total_cost s = 0"
proof -
  from assms(1) have "length terminals = 0 \<or> length terminals = 1" by linarith
  with assms(2) show ?thesis
    by (auto simp: solve_def Let_def empty_result_def single_table_result_def split: if_splits)
qed

lemma compare_solutions_parts:
  assumes "compare_solutions steiner sg cat terminals = Inr r"
  shows "\<exists>s1 s2. solve steiner sg cat terminals False = Inr s1
           \<and> (if cat \<noteq> None then solve steiner sg cat terminals True else Inr s1) = Inr s2
           \<and> without_cost r = total_cost s1 \<and> with_cost r = total_cost s2
           \<and> cost_reduction r = py_round (total_cost s1 - total_cost s2) 4"
  using assms
  by (auto simp: compare_solutions_def Let_def split: sum.splits)

lemma build_unified_graph_result:
  assumes "build_unified_graph sg c = Inr g"
  shows "\<exists>vs. g = fold add_view vs (to_undirected sg)"
proof -
  from assms obtain ps ms where "g = fold add_view (ps @ ms) (to_undirected sg)"
    by (auto simp: build_unified_graph_def split: sum.splits)
  then show ?thesis by blast
qed

text \<open>
  Claim C1, as amended. \<open>compare_solutions\<close> reports cost 0 on both sides for a terminal
  set of at most one table, and the same cost on both sides when the solver has no
  catalog; and the unified graph keeps every node and every edge of the undirected
  projection, an edge with its weight or with weight 0 (view edges are additions, never
  removals).
\<close>

theorem compare_solutions_costs:
  "(length terminals \<le> 1 \<and> compare_solutions steiner sg cat terminals = Inr r \<longrightarrow>
      with_cost r = 0 \<and> without_cost r = 0 \<and> cost_reduction r = 0)
   \<and> (compare_solutions steiner sg None terminals = Inr r' \<longrightarrow> with_cost r' = without_cost r')
   \<and> (build_unified_graph sg c = Inr g \<longrightarrow>
        set (node_names (to_undirected sg)) \<subseteq> set (node_names g)
        \<and> (\<forall>e\<in>set (uedges (to_undirected sg)). keeps_edge g e))"
proof -
  have 1: "with_cost r = 0 \<and> without_cost r = 0 \<and> cost_reduction r = 0"
    if small: "length terminals \<le> 1" and c: "compare_solutions steiner sg cat terminals = Inr r"
  proof -
    from compare_solutions_parts [OF c] obtain s1 s2 where
      s1: "solve steiner sg cat terminals False = Inr s1"
      and s2: "(if cat \<noteq> None then solve steiner sg cat terminals True else Inr s1) = Inr s2"
      and r: "without_cost r = total_cost s1" "with_cost r = total_cost s2"
        "cost_reduction r = py_round (total_cost s1 - total_cost s2) 4"
      by blast
    have z1: "total_cost s1 = 0" using small s1 by (rule solve_small_cost)
    have z2: "total_cost s2 = 0"
    proof (cases "cat \<noteq> None")
      case True
      with s2 have "solve steiner sg cat terminals True = Inr s2" by simp
      with small show ?thesis by (rule solve_small_cost)
    next
      case False
      with s2 z1 show ?thesis by simp
    qed
    from r z1 z2 show ?thesis by (simp add: py_round_zero)
  qed
  have 2: "with_cost r' = without_cost r'"
    if "compare_solutions steiner sg None terminals = Inr r'"
    using compare_solutions_parts [OF that] by auto
  have 3: "set (node_names (to_undirected sg)) \<subseteq> set (node_names g)
        \<and> (\<forall>e\<in>set (uedges (to_undirected sg)). keeps_edge g e)"
    if "build_unified_graph sg c = Inr g"
  proof -
    from build_unified_graph_result [OF that] obtain vs where
      g: "g = fold add_view vs (to_undirected sg)" by blast
    show ?thesis
      unfolding g using fold_add_view_names [of vs "to_undirected sg"] fold_add_view_keeps
      by auto
  qed
  from 1 2 3 show ?thesis by blast
qed

theorem compare_solutions_costs_witness:
  "length [''a''] \<le> 1
   \<and> (\<exists>r. compare_solutions (\<lambda>g T. g) ex_sg (Some ex_cat) [''a''] = Inr r
          \<and> with_cost r = 0 \<and> without_cost r = 0 \<and> cost_reduction r = 0)
   \<and> (\<exists>r. compare_solutions (\<lambda>g T. g) ex_sg None [''a'', ''b''] = Inr r
          \<and> with_cost r = without_cost r)
   \<and> build_unified_graph ex_sg ex_cat = Inr ex_unified
   \<and> keeps_edge ex_unified (''a'', ''b'', 1)"
proof -
  have "\<exists>r. compare_solutions (\<lambda>g T. g) ex_sg (Some ex_cat) [''a''] = Inr r"
    by (simp add: compare_solutions_def solve_def Let_def ex_sg_def)
  then obtain r1 where r1: "compare_solutions (\<lambda>g T. g) ex_sg (Some ex_cat) [''a''] = Inr r1"
    by blast
  have "\<exists>r. compare_solutions (\<lambda>g T. g) ex_sg None [''a'', ''b''] = Inr r"
    by (simp add: compare_solutions_def ex_solve_without Let_def)
  then obtain r2 where r2: "compare_solutions (\<lambda>g T. g) ex_sg None [''a'', ''b''] = Inr r2"
    by blast
  have e: "(''a'', ''b'', 1) \<in> set (uedges (to_undirected ex_sg))"
    by (simp add: ex_sg_undirected)
  from compare_solutions_costs [where terminals = "[''a'']" and steiner = "\<lambda>g T. g" and sg = ex_sg
      and cat = "Some ex_cat" and r = r1 and c = ex_cat and g = ex_unified]
    compare_solutions_costs [where terminals = "[''a'', ''b'']" and steiner = "\<lambda>g T. g"
      and sg = ex_sg and r' = r2]
    r1 r2 ex_build_unified e
  show ?thesis by auto
qed

end
